theory Spec2Isabelle
  imports Main
begin

section \<open>Data model\<close>

text \<open>
  The converter of \<^verbatim>\<open>xml_to_json.py\<close> walks an lxml element tree. An element exposes its
  tag, its attribute dictionary, its inline text and its tail text (both may be absent,
  Python's \<^verbatim>\<open>None\<close>) and its ordered children. A Python string is modelled as a
  \<^typ>\<open>string\<close>, one \<^typ>\<open>char\<close> per code point (the code points below 256), so
  \<open>length\<close> is Python's \<^verbatim>\<open>len\<close>.
\<close>

datatype element =
  Element (elem_tag: string) (elem_attrib: "(string \<times> string) list")
    (elem_text: "string option") (elem_tail: "string option") (elem_children: "element list")

text \<open>The exceptions the converter can raise; each raise is a branch \<open>Inl\<close> of the model.\<close>

datatype error =
  AttributeError | KeyError | IndexError | ValueError | AssertionError | HypothesisViolation

text \<open>The dictionary \<^verbatim>\<open>ENTITY\<close>: its five keys as fields; offsets are Python ints.\<close>

record entity =
  entity_id :: string
  entity_text :: string
  label :: "string option"
  start_offset :: int
  end_offset :: int

text \<open>The dictionary \<^verbatim>\<open>DOCUMENT\<close>.\<close>

record document =
  doc_id :: string
  doc_text :: string
  entities :: "entity list"

text \<open>The two attributes a converter object holds after \<^verbatim>\<open>__init__\<close>.\<close>

record converter =
  accepted_labels :: "string list"
  alt_strategy :: string

section \<open>Python built-ins used by the converter\<close>

text \<open>\<^verbatim>\<open>str.isspace\<close> on one code point below 256.\<close>

definition isspace :: "char \<Rightarrow> bool" where
  "isspace c = (of_char c \<in> set [9, 10, 11, 12, 13, 28, 29, 30, 31, 32, 133, 160 :: nat])"

definition lstrip :: "string \<Rightarrow> string" where
  "lstrip s = dropWhile isspace s"

definition rstrip :: "string \<Rightarrow> string" where
  "rstrip s = rev (dropWhile isspace (rev s))"

definition strip :: "string \<Rightarrow> string" where
  "strip s = rstrip (lstrip s)"

text \<open>\<^verbatim>\<open>s.split(sep)\<close> for a one-character separator: one piece more than separators.\<close>

fun py_split :: "char \<Rightarrow> string \<Rightarrow> string list" where
  "py_split sep [] = [[]]"
| "py_split sep (c # cs) =
     (if c = sep then [] # py_split sep cs
      else (case py_split sep cs of
              [] \<Rightarrow> [[c]]
            | p # ps \<Rightarrow> (c # p) # ps))"

text \<open>
  \<^verbatim>\<open>[div.start() for div in re.finditer(r'\|', alt_text)]\<close>: the offsets of the
  pipe characters, the first argument being the offset of the head of the string.
\<close>

fun pipe_offsets :: "int \<Rightarrow> string \<Rightarrow> int list" where
  "pipe_offsets i [] = []"
| "pipe_offsets i (c # cs) =
     (if c = CHR ''|'' then i # pipe_offsets (i + 1) cs else pipe_offsets (i + 1) cs)"

text \<open>\<^verbatim>\<open>s[a:b]\<close> with Python's clamping of the bounds and negative bounds counted from the end.\<close>

definition slice_bound :: "nat \<Rightarrow> int \<Rightarrow> nat" where
  "slice_bound n i = (if i < 0 then nat (max 0 (int n + i)) else min n (nat i))"

definition py_slice :: "'a list \<Rightarrow> int \<Rightarrow> int \<Rightarrow> 'a list" where
  "py_slice s a b = take (slice_bound (length s) b - slice_bound (length s) a)
                      (drop (slice_bound (length s) a) s)"

text \<open>\<^verbatim>\<open>max(xs)\<close> raises \<^verbatim>\<open>ValueError\<close> on an empty list.\<close>

fun py_max :: "nat list \<Rightarrow> error + nat" where
  "py_max [] = Inl ValueError"
| "py_max (x # xs) = Inr (fold max xs x)"

text \<open>\<^verbatim>\<open>xs.index(v)\<close>: the first position of \<open>v\<close>, \<^verbatim>\<open>ValueError\<close> when there is none.\<close>

fun py_index :: "nat list \<Rightarrow> nat \<Rightarrow> error + nat" where
  "py_index [] v = Inl ValueError"
| "py_index (x # xs) v =
     (if x = v then Inr 0
      else (case py_index xs v of Inl e \<Rightarrow> Inl e | Inr i \<Rightarrow> Inr (Suc i)))"

text \<open>\<^verbatim>\<open>xs[i]\<close> for a non-negative index.\<close>

definition py_get :: "'a list \<Rightarrow> nat \<Rightarrow> error + 'a" where
  "py_get xs i = (if i < length xs then Inr (xs ! i) else Inl IndexError)"

section \<open>The converter\<close>

definition SELECTIVE_CATEGS :: "string list" where
  "SELECTIVE_CATEGS = [''PESSOA'', ''ORGANIZACAO'', ''LOCAL'', ''TEMPO'', ''VALOR'']"

definition ALL_CATEGS :: "string list" where
  "ALL_CATEGS = SELECTIVE_CATEGS @
     [''ABSTRACCAO'', ''ACONTECIMENTO'', ''COISA'', ''OBRA'', ''OUTRO'']"

text \<open>\<^verbatim>\<open>XMLtoJSON.__init__\<close>.\<close>

definition XMLtoJSON :: "bool \<Rightarrow> string \<Rightarrow> error + converter" where
  "XMLtoJSON selective strategy =
     (if strategy \<notin> set [''most_entities'', ''entity_coverage''] then Inl ValueError
      else Inr \<lparr>accepted_labels = (if selective then SELECTIVE_CATEGS else ALL_CATEGS),
                alt_strategy = strategy\<rparr>)"

text \<open>\<^verbatim>\<open>_shift_offset\<close>: both offsets moved by \<open>group_offset\<close>.\<close>

definition shift_offset :: "entity \<Rightarrow> int \<Rightarrow> entity" where
  "shift_offset e group_offset =
     e\<lparr>start_offset := start_offset e + group_offset,
       end_offset := end_offset e + group_offset\<rparr>"

text \<open>The loop of \<^verbatim>\<open>_get_label\<close> over the stripped candidate labels.\<close>

fun first_accepted :: "string list \<Rightarrow> string list \<Rightarrow> string option" where
  "first_accepted accepted [] = None"
| "first_accepted accepted (l # ls) =
     (if l \<in> set accepted then Some l else first_accepted accepted ls)"

definition get_label :: "converter \<Rightarrow> element \<Rightarrow> string option" where
  "get_label self e =
     (case map_of (elem_attrib e) ''CATEG'' of
        None \<Rightarrow> None
      | Some categ \<Rightarrow>
          first_accepted (accepted_labels self) (map strip (py_split CHR ''|'' categ)))"

text \<open>
  \<^verbatim>\<open>_convert_entity\<close>: \<^verbatim>\<open>elem.text.lstrip()\<close> raises \<^verbatim>\<open>AttributeError\<close> when the
  element has no inline text, \<^verbatim>\<open>elem.attrib['ID']\<close> raises \<^verbatim>\<open>KeyError\<close> when the
  identifier is missing.
\<close>

definition convert_entity :: "converter \<Rightarrow> element \<Rightarrow> error + entity" where
  "convert_entity self e =
     (case elem_text e of
        None \<Rightarrow> Inl AttributeError
      | Some t \<Rightarrow>
          (case map_of (elem_attrib e) ''ID'' of
             None \<Rightarrow> Inl KeyError
           | Some i \<Rightarrow>
               Inr \<lparr>entity_id = i, entity_text = lstrip t, label = get_label self e,
                    start_offset = 0, end_offset = int (length (lstrip t))\<rparr>))"

text \<open>
  The helper \<^verbatim>\<open>_is_whitespace_or_punctuation\<close> is imported from a module that is not
  part of the sources; the functions that call it take it as the parameter \<open>wp\<close>.
  \<^verbatim>\<open>insertion[0]\<close> and \<^verbatim>\<open>piece[0]\<close> raise \<^verbatim>\<open>IndexError\<close> on an empty string, and
  Python's \<^verbatim>\<open>and\<close> evaluates them only when the tests before them succeed.
\<close>

definition avoid_word_agglutination ::
  "(char \<Rightarrow> bool) \<Rightarrow> string \<Rightarrow> string \<Rightarrow> error + string" where
  "avoid_word_agglutination wp txt insertion =
     (if txt = [] then Inr txt
      else if \<not> wp (last txt) then
        (case insertion of
           [] \<Rightarrow> Inl IndexError
         | c # _ \<Rightarrow> if \<not> wp c then Inr (txt @ '' '') else Inr txt)
      else Inr txt)"

definition append_text_safe ::
  "(char \<Rightarrow> bool) \<Rightarrow> string \<Rightarrow> string \<Rightarrow> error + string" where
  "append_text_safe wp txt piece =
     (if txt \<noteq> [] \<and> \<not> wp (last txt) then
        (case piece of
           [] \<Rightarrow> Inl IndexError
         | c # _ \<Rightarrow> if \<not> wp c then Inr ((txt @ '' '') @ piece) else Inr (txt @ piece))
      else Inr (txt @ piece))"

text \<open>
  \<^verbatim>\<open>_iterate_alt_tag\<close>: the loop over the children of an ALT element, with the running
  text and entity list as accumulators. Children other than EM are skipped whole.
\<close>

fun iterate_children ::
  "(char \<Rightarrow> bool) \<Rightarrow> converter \<Rightarrow> element list \<Rightarrow> string \<Rightarrow> entity list \<Rightarrow>
     error + (string \<times> entity list)" where
  "iterate_children wp self [] txt ents = Inr (txt, ents)"
| "iterate_children wp self (t # ts) txt ents =
     (if elem_tag t = ''EM'' then
        (case convert_entity self t of
           Inl err \<Rightarrow> Inl err
         | Inr e \<Rightarrow>
             (let ents' = (if label e \<noteq> None
                           then ents @ [shift_offset e (int (length txt))] else ents)
              in (case append_text_safe wp txt (entity_text e) of
                    Inl err \<Rightarrow> Inl err
                  | Inr txt' \<Rightarrow>
                      (case elem_tail t of
                         None \<Rightarrow> iterate_children wp self ts txt' ents'
                       | Some tail \<Rightarrow>
                           (if tail = [] then iterate_children wp self ts txt' ents'
                            else (case append_text_safe wp txt' tail of
                                    Inl err \<Rightarrow> Inl err
                                  | Inr txt'' \<Rightarrow> iterate_children wp self ts txt'' ents'))))))
      else iterate_children wp self ts txt ents)"

definition iterate_alt_tag ::
  "(char \<Rightarrow> bool) \<Rightarrow> converter \<Rightarrow> element \<Rightarrow> error + (string \<times> entity list)" where
  "iterate_alt_tag wp self alt_tag =
     iterate_children wp self (elem_children alt_tag)
       (case elem_text alt_tag of None \<Rightarrow> [] | Some t \<Rightarrow> t) []"

text \<open>
  The entity loop of \<^verbatim>\<open>_split_alternatives\<close>. Its state is \<open>group_ix\<close>,
  \<open>group_start_offset\<close>, \<open>current_group_end\<close> and the groups filled so far;
  \<open>n\<close> is \<^verbatim>\<open>len(alt_text)\<close>. \<^verbatim>\<open>groups[group_ix]\<close> raises \<^verbatim>\<open>IndexError\<close> out of range.
\<close>

fun split_loop ::
  "int list \<Rightarrow> int \<Rightarrow> entity list \<Rightarrow> nat \<Rightarrow> int \<Rightarrow> int \<Rightarrow> entity list list \<Rightarrow>
     error + entity list list" where
  "split_loop divs n [] group_ix group_start_offset current_group_end groups = Inr groups"
| "split_loop divs n (e # es) group_ix group_start_offset current_group_end groups =
     (if start_offset e > current_group_end then
        (let group_ix' = group_ix + 1;
             group_start_offset' = current_group_end + 1;
             current_group_end' =
               (if group_ix' < length divs then divs ! group_ix'
                else if group_ix' = length divs then n
                else current_group_end)
         in if group_ix' < length groups then
              split_loop divs n es group_ix' group_start_offset' current_group_end'
                (groups[group_ix' := groups ! group_ix' @ [shift_offset e (- group_start_offset')]])
            else Inl IndexError)
      else
        (if group_ix < length groups then
           split_loop divs n es group_ix group_start_offset current_group_end
             (groups[group_ix := groups ! group_ix @ [shift_offset e (- group_start_offset)]])
         else Inl IndexError))"

definition split_alternatives ::
  "string \<Rightarrow> entity list \<Rightarrow> error + (string list \<times> entity list list)" where
  "split_alternatives alt_text alt_entities =
     (let alt_texts = py_split CHR ''|'' alt_text in
      if length alt_texts < 2 then Inl HypothesisViolation
      else
        (let divs = pipe_offsets 0 alt_text in
         case divs of
           [] \<Rightarrow> Inl IndexError
         | d0 # _ \<Rightarrow>
             (case split_loop divs (int (length alt_text)) alt_entities 0 0 d0
                     (replicate (length alt_texts) []) of
                Inl err \<Rightarrow> Inl err
              | Inr groups \<Rightarrow>
                  if length groups = length alt_texts then Inr (alt_texts, groups)
                  else Inl AssertionError)))"

text \<open>The two scores of \<^verbatim>\<open>_handle_alt\<close>, one number per group.\<close>

definition ents_per_group :: "entity list list \<Rightarrow> nat list" where
  "ents_per_group groups = map length groups"

definition coverage :: "entity list \<Rightarrow> nat" where
  "coverage grp = sum_list (map (\<lambda>ent. length (entity_text ent)) grp)"

definition coverages :: "entity list list \<Rightarrow> nat list" where
  "coverages groups = map coverage groups"

text \<open>\<^verbatim>\<open>scores.index(max(scores))\<close>, then \<^verbatim>\<open>groups[N_max]\<close> and \<^verbatim>\<open>alt_texts[N_max]\<close>.\<close>

definition choose_group ::
  "nat list \<Rightarrow> string list \<Rightarrow> entity list list \<Rightarrow> error + (string \<times> entity list)" where
  "choose_group scores alt_texts groups =
     (case py_max scores of
        Inl err \<Rightarrow> Inl err
      | Inr m \<Rightarrow>
          (case py_index scores m of
             Inl err \<Rightarrow> Inl err
           | Inr N_max \<Rightarrow>
               (case py_get groups N_max of
                  Inl err \<Rightarrow> Inl err
                | Inr chosen_entities \<Rightarrow>
                    (case py_get alt_texts N_max of
                       Inl err \<Rightarrow> Inl err
                     | Inr group_text \<Rightarrow> Inr (group_text, chosen_entities)))))"

definition handle_alt ::
  "(char \<Rightarrow> bool) \<Rightarrow> converter \<Rightarrow> element \<Rightarrow> error + (string \<times> entity list)" where
  "handle_alt wp self alt_tag =
     (case iterate_alt_tag wp self alt_tag of
        Inl err \<Rightarrow> Inl err
      | Inr (tag_text, ents) \<Rightarrow>
          (case split_alternatives tag_text ents of
             Inl err \<Rightarrow> Inl err
           | Inr (alt_texts, groups) \<Rightarrow>
               if alt_strategy self = ''most_entities'' then
                 (if sum_list (ents_per_group groups) \<noteq> length ents then Inl AssertionError
                  else choose_group (ents_per_group groups) alt_texts groups)
               else if alt_strategy self \<noteq> ''entity_coverage'' then Inl AssertionError
               else choose_group (coverages groups) alt_texts groups))"

text \<open>\<^verbatim>\<open>_convert_tag\<close>: the dispatch on the tag, then the tail text.\<close>

definition convert_tag ::
  "(char \<Rightarrow> bool) \<Rightarrow> converter \<Rightarrow> element \<Rightarrow> error + (string \<times> entity list)" where
  "convert_tag wp self t =
     (case (if elem_tag t = ''EM'' then
              (case convert_entity self t of
                 Inl err \<Rightarrow> Inl err
               | Inr e \<Rightarrow> Inr (entity_text e, if label e \<noteq> None then [e] else []))
            else if elem_tag t = ''ALT'' then handle_alt wp self t
            else Inr ([], [])) of
        Inl err \<Rightarrow> Inl err
      | Inr (txt, ents) \<Rightarrow>
          (case elem_tail t of
             None \<Rightarrow> Inr (txt, ents)
           | Some tail \<Rightarrow>
               (case avoid_word_agglutination wp txt tail of
                  Inl err \<Rightarrow> Inl err
                | Inr txt' \<Rightarrow> Inr (txt' @ tail, ents))))"

text \<open>The loop of \<^verbatim>\<open>convert_document\<close> over the children of the DOC element.\<close>

fun convert_children ::
  "(char \<Rightarrow> bool) \<Rightarrow> converter \<Rightarrow> element list \<Rightarrow> string \<Rightarrow> entity list \<Rightarrow>
     error + (string \<times> entity list)" where
  "convert_children wp self [] txt ents = Inr (txt, ents)"
| "convert_children wp self (t # ts) txt ents =
     (case convert_tag wp self t of
        Inl err \<Rightarrow> Inl err
      | Inr (tag_text, tag_entities) \<Rightarrow>
          (case avoid_word_agglutination wp txt tag_text of
             Inl err \<Rightarrow> Inl err
           | Inr txt' \<Rightarrow>
               (let shifted = map (\<lambda>e. shift_offset e (int (length txt'))) tag_entities
                in if tag_text \<noteq> [] then
                     (case append_text_safe wp txt' tag_text of
                        Inl err \<Rightarrow> Inl err
                      | Inr txt'' \<Rightarrow> convert_children wp self ts txt'' (ents @ shifted))
                   else convert_children wp self ts txt' (ents @ shifted))))"

definition convert_document ::
  "(char \<Rightarrow> bool) \<Rightarrow> converter \<Rightarrow> element \<Rightarrow> error + document" where
  "convert_document wp self doc =
     (if elem_tag doc \<noteq> ''DOC'' then Inl ValueError
      else
        (case convert_children wp self (elem_children doc)
                (case elem_text doc of None \<Rightarrow> [] | Some t \<Rightarrow> t) [] of
           Inl err \<Rightarrow> Inl err
         | Inr (txt, ents) \<Rightarrow>
             (case map_of (elem_attrib doc) ''DOCID'' of
                None \<Rightarrow> Inl KeyError
              | Some i \<Rightarrow> Inr \<lparr>doc_id = i, doc_text = txt, entities = ents\<rparr>)))"


section \<open>The character classes of the agglutination guard\<close>

text \<open>
  Modelled from the spec: the predicate \<^verbatim>\<open>_is_whitespace_or_punctuation\<close> lives in the
  module \<^verbatim>\<open>utils\<close>, which is missing from the sources. The spec only says that it
  recognises whitespace and punctuation characters; the model takes Python's whitespace
  and the ASCII punctuation characters. It is used for concrete inputs only: the general
  theorems hold for every predicate \<open>wp\<close>.
\<close>

definition is_punctuation :: "char \<Rightarrow> bool" where
  "is_punctuation c =
     (let cp = (of_char c :: nat)
      in (33 \<le> cp \<and> cp \<le> 47) \<or> (58 \<le> cp \<and> cp \<le> 64) \<or>
         (91 \<le> cp \<and> cp \<le> 96) \<or> (123 \<le> cp \<and> cp \<le> 126))"

definition is_whitespace_or_punctuation :: "char \<Rightarrow> bool" where
  "is_whitespace_or_punctuation c = (isspace c \<or> is_punctuation c)"

section \<open>Notions used to state the properties\<close>

text \<open>
  The offset, in the probe string, at which segment \<open>k\<close> starts: the lengths of the
  segments before it plus one delimiter for each of them.
\<close>

definition segment_start :: "string list \<Rightarrow> nat \<Rightarrow> int" where
  "segment_start alt_texts k = int (length (concat (take k alt_texts)) + k)"

text \<open>
  The inverse of splitting on the pipe character: the pieces, in order, with one pipe
  character between two neighbours.
\<close>

fun pipe_join :: "string list \<Rightarrow> string" where
  "pipe_join [] = []"
| "pipe_join [p] = p"
| "pipe_join (p # q # ps) = p @ CHR ''|'' # pipe_join (q # ps)"

text \<open>
  The values the loop of \<^verbatim>\<open>_split_alternatives\<close> holds in \<open>group_start_offset\<close> and
  \<open>current_group_end\<close> while it fills group \<open>k\<close>, from the offsets \<open>divs\<close> of the
  delimiters and the length \<open>n\<close> of the probe string.
\<close>

definition group_start :: "int list \<Rightarrow> nat \<Rightarrow> int" where
  "group_start divs k = (if k = 0 then 0 else divs ! (k - 1) + 1)"

definition group_end :: "int list \<Rightarrow> int \<Rightarrow> nat \<Rightarrow> int" where
  "group_end divs n k = (if k < length divs then divs ! k else n)"

text \<open>
  The offset-slice invariant of a text and its entities: the offsets are ordered and
  inside the text, and the slice they cut out is the text of the entity.
\<close>

definition aligned :: "string \<Rightarrow> entity list \<Rightarrow> bool" where
  "aligned s es =
     list_all (\<lambda>e. 0 \<le> start_offset e \<and> start_offset e \<le> end_offset e \<and>
                    end_offset e \<le> int (length s) \<and>
                    py_slice s (start_offset e) (end_offset e) = entity_text e) es"

section \<open>Example inputs\<close>

text \<open>
  Converters of the total scenario with either strategy, EM elements and entity records in
  short, and the elements on which the theorems below are evaluated.
\<close>

definition most_conv :: converter where
  "most_conv = \<lparr>accepted_labels = ALL_CATEGS, alt_strategy = ''most_entities''\<rparr>"

definition coverage_conv :: converter where
  "coverage_conv = \<lparr>accepted_labels = ALL_CATEGS, alt_strategy = ''entity_coverage''\<rparr>"

definition em :: "string \<Rightarrow> string \<Rightarrow> string \<Rightarrow> string option \<Rightarrow> element" where
  "em i categ s tail = Element ''EM'' [(''ID'', i), (''CATEG'', categ)] (Some s) tail []"

definition ent :: "string \<Rightarrow> string \<Rightarrow> string \<Rightarrow> int \<Rightarrow> int \<Rightarrow> entity" where
  "ent i s l a b =
     \<lparr>entity_id = i, entity_text = s, label = Some l, start_offset = a, end_offset = b\<rparr>"

definition alt_ab :: element where
  "alt_ab = Element ''ALT'' [] None None
     [em ''1'' ''COISA'' ''A-B'' (Some ''|''), em ''2'' ''PESSOA'' ''A'' (Some ''-''),
      em ''3'' ''PESSOA'' ''B'' None]"

definition alt_blank :: element where
  "alt_blank = Element ''ALT'' [] (Some ''X|'') None [em ''1'' ''PESSOA'' '' '' None]"

definition alt_simple :: element where
  "alt_simple = Element ''ALT'' [] (Some ''ab|'') None [em ''2011'' ''ABSTRACCAO'' ''ab'' None]"

definition alt_two :: element where
  "alt_two = Element ''ALT'' [] (Some ''X|'') None
     [em ''1'' ''PESSOA'' '' '' None, em ''2'' ''PESSOA'' ''ab'' None]"

definition doc_blank :: element where
  "doc_blank = Element ''DOC'' [(''DOCID'', ''d'')] None None [em ''1'' ''PESSOA'' '' '' None]"


definition alt_glued :: element where
  "alt_glued = Element ''ALT'' [] (Some ''foo'') None [em ''1'' ''PESSOA'' ''bar'' (Some ''|baz'')]"

definition doc_glued :: element where
  "doc_glued = Element ''DOC'' [(''DOCID'', ''d'')] None None [alt_glued]"

definition alt_skip :: element where
  "alt_skip = Element ''ALT'' [] (Some ''a|b|'') None [em ''1'' ''PESSOA'' ''c'' None]"

definition doc_skip :: element where
  "doc_skip = Element ''DOC'' [(''DOCID'', ''d'')] None None [alt_skip]"

lemmas eval_defs = most_conv_def coverage_conv_def em_def ent_def alt_ab_def alt_blank_def
  alt_simple_def alt_two_def doc_blank_def alt_glued_def doc_glued_def alt_skip_def doc_skip_def
  iterate_alt_tag_def convert_entity_def get_label_def ALL_CATEGS_def SELECTIVE_CATEGS_def
  strip_def lstrip_def rstrip_def isspace_def shift_offset_def append_text_safe_def
  avoid_word_agglutination_def is_whitespace_or_punctuation_def is_punctuation_def
  split_alternatives_def handle_alt_def choose_group_def py_get_def ents_per_group_def
  coverages_def coverage_def convert_tag_def convert_document_def py_slice_def
  slice_bound_def aligned_def segment_start_def Let_def

section \<open>Facts about the built-ins\<close>

lemma py_split_not_Nil: "py_split sep s \<noteq> []"
  by (induction s) (auto split: list.splits)

lemma py_split_pieces: "\<forall>p\<in>set (py_split sep s). sep \<notin> set p"
  by (induction s) (auto split: list.splits)


lemma lstrip_decomp:
  "\<exists>ws. s = ws @ lstrip s \<and> (\<forall>c\<in>set ws. isspace c) \<and>
        (lstrip s = [] \<or> \<not> isspace (hd (lstrip s)))"
proof -
  have "s = takeWhile isspace s @ lstrip s" by (simp add: lstrip_def)
  moreover have "\<forall>c\<in>set (takeWhile isspace s). isspace c"
    by (auto dest: set_takeWhileD)
  moreover have "lstrip s = [] \<or> \<not> isspace (hd (lstrip s))"
    unfolding lstrip_def by (metis hd_dropWhile)
  ultimately show ?thesis by blast
qed

lemma rstrip_decomp:
  "\<exists>ws. s = rstrip s @ ws \<and> (\<forall>c\<in>set ws. isspace c) \<and>
        (rstrip s = [] \<or> \<not> isspace (last (rstrip s)))"
proof -
  let ?r = "rev s"
  have "?r = takeWhile isspace ?r @ dropWhile isspace ?r" by simp
  then have "s = rev (dropWhile isspace ?r) @ rev (takeWhile isspace ?r)"
    by (metis rev_append rev_rev_ident)
  then have a: "s = rstrip s @ rev (takeWhile isspace ?r)" by (simp add: rstrip_def)
  have b: "\<forall>c\<in>set (rev (takeWhile isspace ?r)). isspace c"
    by (auto dest: set_takeWhileD)
  have c: "rstrip s = [] \<or> \<not> isspace (last (rstrip s))"
    unfolding rstrip_def by (metis hd_dropWhile last_rev rev_is_Nil_conv)
  from a b c show ?thesis by blast
qed

lemma strip_decomp:
  "\<exists>a b. s = a @ strip s @ b \<and> (\<forall>c\<in>set a. isspace c) \<and> (\<forall>c\<in>set b. isspace c)"
proof -
  obtain a where a: "s = a @ lstrip s" "\<forall>c\<in>set a. isspace c"
    using lstrip_decomp [of s] by blast
  obtain b where b: "lstrip s = rstrip (lstrip s) @ b" "\<forall>c\<in>set b. isspace c"
    using rstrip_decomp [of "lstrip s"] by blast
  from a b have "s = a @ strip s @ b" by (simp add: strip_def)
  with a(2) b(2) show ?thesis by blast
qed

lemma pipe_join_Cons_Cons: "pipe_join ((c # p) # ps) = c # pipe_join (p # ps)"
  by (cases ps) auto

lemma pipe_join_py_split: "pipe_join (py_split CHR ''|'' s) = s"
proof (induction s)
  case Nil
  show ?case by simp
next
  case (Cons c cs)
  obtain p ps where pp: "py_split CHR ''|'' cs = p # ps"
    using py_split_not_Nil [of "CHR ''|''" cs] by (cases "py_split CHR ''|'' cs") auto
  with Cons show ?case by (auto simp: pipe_join_Cons_Cons)
qed




lemma strip_stripped:
  "\<exists>a b. p = a @ strip p @ b \<and> (\<forall>x\<in>set a. isspace x) \<and> (\<forall>x\<in>set b. isspace x) \<and>
         (strip p = [] \<or> (\<not> isspace (hd (strip p)) \<and> \<not> isspace (last (strip p))))"
proof -
  obtain a where a: "p = a @ lstrip p" "\<forall>c\<in>set a. isspace c"
    "lstrip p = [] \<or> \<not> isspace (hd (lstrip p))"
    using lstrip_decomp [of p] by blast
  obtain b where b: "lstrip p = strip p @ b" "\<forall>c\<in>set b. isspace c"
    "strip p = [] \<or> \<not> isspace (last (strip p))"
    using rstrip_decomp [of "lstrip p"] by (auto simp: strip_def)
  have "strip p = [] \<or> (\<not> isspace (hd (strip p)) \<and> \<not> isspace (last (strip p)))"
  proof (cases "strip p")
    case Nil
    then show ?thesis by simp
  next
    case (Cons x xs)
    with b(1) have "lstrip p \<noteq> []" "hd (lstrip p) = hd (strip p)" by auto
    with a(3) b(3) Cons show ?thesis by auto
  qed
  moreover have "p = a @ strip p @ b" using a(1) b(1) by simp
  ultimately show ?thesis using a(2) b(2) by blast
qed

section \<open>Label resolution\<close>

lemma first_accepted_None:
  "first_accepted acc ls = None \<longleftrightarrow> (\<forall>l\<in>set ls. l \<notin> set acc)"
  by (induction ls) auto

lemma first_accepted_Some:
  "first_accepted acc ls = Some l \<Longrightarrow>
     \<exists>i<length ls. ls ! i = l \<and> l \<in> set acc \<and> (\<forall>j<i. ls ! j \<notin> set acc)"
proof (induction ls)
  case Nil
  then show ?case by simp
next
  case (Cons a ls)
  show ?case
  proof (cases rule: case_split [of "a \<in> set acc"])
    case True
    with Cons.prems have "a = l" by simp
    with True show ?thesis by (intro exI [of _ 0]) simp
  next
    case False
    with Cons.prems have "first_accepted acc ls = Some l" by simp
    from Cons.IH [OF this] obtain i where
      i: "i < length ls" "ls ! i = l" "l \<in> set acc" "\<forall>j<i. ls ! j \<notin> set acc" by blast
    have "\<forall>j<Suc i. (a # ls) ! j \<notin> set acc"
      using False i(4) by (auto simp: less_Suc_eq_0_disj)
    with i show ?thesis by (intro exI [of _ "Suc i"]) simp
  qed
qed

text \<open>
  Claim C6. For the converter built by the constructor, the accepted set is the five
  selective categories when \<open>selective\<close> holds and the ten categories otherwise.
  \<^verbatim>\<open>_get_label\<close> returns null when the CATEG attribute is absent. Otherwise the
  attribute value is cut at its pipe characters into pieces (the pieces hold no pipe and,
  joined by pipes, give the value back), each candidate is its piece without the
  whitespace that leads and trails it (the piece is whitespace, the candidate, whitespace,
  and the candidate neither starts nor ends with whitespace), and the result is the first
  candidate, from left to right, that is in the accepted set: every candidate before it is
  not accepted. The result is null exactly when no candidate is accepted.
\<close>

theorem get_label_first_match:
  assumes "XMLtoJSON selective strategy = Inr self"
  shows "set (accepted_labels self) =
           (if selective then {''PESSOA'', ''ORGANIZACAO'', ''LOCAL'', ''TEMPO'', ''VALOR''}
            else {''PESSOA'', ''ORGANIZACAO'', ''LOCAL'', ''TEMPO'', ''VALOR'',
                  ''ABSTRACCAO'', ''ACONTECIMENTO'', ''COISA'', ''OBRA'', ''OUTRO''}) \<and>
         (case map_of (elem_attrib e) ''CATEG'' of
            None \<Rightarrow> get_label self e = None
          | Some categ \<Rightarrow>
              (\<exists>pieces cands.
                 pieces \<noteq> [] \<and> pipe_join pieces = categ \<and>
                 (\<forall>p\<in>set pieces. CHR ''|'' \<notin> set p) \<and>
                 length cands = length pieces \<and>
                 (\<forall>i<length pieces. \<exists>a b.
                    pieces ! i = a @ cands ! i @ b \<and>
                    (\<forall>x\<in>set a. isspace x) \<and> (\<forall>x\<in>set b. isspace x) \<and>
                    (cands ! i = [] \<or>
                     (\<not> isspace (hd (cands ! i)) \<and> \<not> isspace (last (cands ! i))))) \<and>
                 (case get_label self e of
                    None \<Rightarrow> \<forall>l\<in>set cands. l \<notin> set (accepted_labels self)
                  | Some l \<Rightarrow>
                      \<exists>i<length cands. cands ! i = l \<and> l \<in> set (accepted_labels self) \<and>
                        (\<forall>j<i. cands ! j \<notin> set (accepted_labels self)))))"
proof -
  have acc: "accepted_labels self = (if selective then SELECTIVE_CATEGS else ALL_CATEGS)"
    using assms by (auto simp: XMLtoJSON_def split: if_splits)
  have one: "set (accepted_labels self) =
           (if selective then {''PESSOA'', ''ORGANIZACAO'', ''LOCAL'', ''TEMPO'', ''VALOR''}
            else {''PESSOA'', ''ORGANIZACAO'', ''LOCAL'', ''TEMPO'', ''VALOR'',
                  ''ABSTRACCAO'', ''ACONTECIMENTO'', ''COISA'', ''OBRA'', ''OUTRO''})"
    unfolding acc by (simp add: SELECTIVE_CATEGS_def ALL_CATEGS_def)
  let ?attr = "map_of (elem_attrib e) ''CATEG''"
  have two: "(case ?attr of
            None \<Rightarrow> get_label self e = None
          | Some categ \<Rightarrow>
              (\<exists>pieces cands.
                 pieces \<noteq> [] \<and> pipe_join pieces = categ \<and>
                 (\<forall>p\<in>set pieces. CHR ''|'' \<notin> set p) \<and>
                 length cands = length pieces \<and>
                 (\<forall>i<length pieces. \<exists>a b.
                    pieces ! i = a @ cands ! i @ b \<and>
                    (\<forall>x\<in>set a. isspace x) \<and> (\<forall>x\<in>set b. isspace x) \<and>
                    (cands ! i = [] \<or>
                     (\<not> isspace (hd (cands ! i)) \<and> \<not> isspace (last (cands ! i))))) \<and>
                 (case get_label self e of
                    None \<Rightarrow> \<forall>l\<in>set cands. l \<notin> set (accepted_labels self)
                  | Some l \<Rightarrow>
                      \<exists>i<length cands. cands ! i = l \<and> l \<in> set (accepted_labels self) \<and>
                        (\<forall>j<i. cands ! j \<notin> set (accepted_labels self)))))"
  proof (cases ?attr)
    case None
    then show ?thesis by (simp add: get_label_def)
  next
    case (Some categ)
    let ?pieces = "py_split CHR ''|'' categ"
    let ?cands = "map strip ?pieces"
    let ?r = "get_label self e"
    have gl: "?r = first_accepted (accepted_labels self) ?cands"
      using Some by (simp add: get_label_def)
    have p1: "?pieces \<noteq> []" by (rule py_split_not_Nil)
    have p2: "pipe_join ?pieces = categ" by (rule pipe_join_py_split)
    have p3: "\<forall>p\<in>set ?pieces. CHR ''|'' \<notin> set p" by (rule py_split_pieces)
    have p4: "length ?cands = length ?pieces" by simp
    have p5: "\<forall>i<length ?pieces. \<exists>a b.
                    ?pieces ! i = a @ ?cands ! i @ b \<and>
                    (\<forall>x\<in>set a. isspace x) \<and> (\<forall>x\<in>set b. isspace x) \<and>
                    (?cands ! i = [] \<or>
                     (\<not> isspace (hd (?cands ! i)) \<and> \<not> isspace (last (?cands ! i))))"
      using strip_stripped by simp
    have p6: "(case ?r of
                    None \<Rightarrow> \<forall>l\<in>set ?cands. l \<notin> set (accepted_labels self)
                  | Some l \<Rightarrow>
                      \<exists>i<length ?cands. ?cands ! i = l \<and> l \<in> set (accepted_labels self) \<and>
                        (\<forall>j<i. ?cands ! j \<notin> set (accepted_labels self)))"
    proof (cases ?r)
      case None
      with gl have "first_accepted (accepted_labels self) ?cands = None" by simp
      then have "\<forall>l\<in>set ?cands. l \<notin> set (accepted_labels self)"
        by (simp only: first_accepted_None)
      with None show ?thesis by simp
    next
      case (Some l)
      with gl have "first_accepted (accepted_labels self) ?cands = Some l" by simp
      from first_accepted_Some [OF this] Some show ?thesis by simp
    qed
    from p1 p2 p3 p4 p5 p6 have "\<exists>pieces cands.
                 pieces \<noteq> [] \<and> pipe_join pieces = categ \<and>
                 (\<forall>p\<in>set pieces. CHR ''|'' \<notin> set p) \<and>
                 length cands = length pieces \<and>
                 (\<forall>i<length pieces. \<exists>a b.
                    pieces ! i = a @ cands ! i @ b \<and>
                    (\<forall>x\<in>set a. isspace x) \<and> (\<forall>x\<in>set b. isspace x) \<and>
                    (cands ! i = [] \<or>
                     (\<not> isspace (hd (cands ! i)) \<and> \<not> isspace (last (cands ! i))))) \<and>
                 (case get_label self e of
                    None \<Rightarrow> \<forall>l\<in>set cands. l \<notin> set (accepted_labels self)
                  | Some l \<Rightarrow>
                      \<exists>i<length cands. cands ! i = l \<and> l \<in> set (accepted_labels self) \<and>
                        (\<forall>j<i. cands ! j \<notin> set (accepted_labels self)))"
      by (intro exI [of _ ?pieces] exI [of _ ?cands] conjI)
    with Some show ?thesis by simp
  qed
  from one two show ?thesis by blast
qed

theorem get_label_first_match_witness:
  "XMLtoJSON True ''most_entities'' =
     Inr \<lparr>accepted_labels = SELECTIVE_CATEGS, alt_strategy = ''most_entities''\<rparr> \<and>
   get_label \<lparr>accepted_labels = SELECTIVE_CATEGS, alt_strategy = ''most_entities''\<rparr>
     (Element ''EM'' [(''ID'', ''383''), (''CATEG'', ''ABSTRACCAO |  PESSOA '')] None None [])
     = Some ''PESSOA'' \<and>
   get_label \<lparr>accepted_labels = SELECTIVE_CATEGS, alt_strategy = ''most_entities''\<rparr>
     (Element ''EM'' [(''ID'', ''384''), (''CATEG'', ''TEMPO |LOCAL'')] None None [])
     = Some ''TEMPO'' \<and>
   get_label \<lparr>accepted_labels = SELECTIVE_CATEGS, alt_strategy = ''most_entities''\<rparr>
     (Element ''EM'' [(''ID'', ''385''), (''CATEG'', ''COISA|OBRA'')] None None [])
     = None"
  using get_label_first_match [of True "''most_entities''"
      "\<lparr>accepted_labels = SELECTIVE_CATEGS, alt_strategy = ''most_entities''\<rparr>"
      "Element ''EM'' [(''ID'', ''383''), (''CATEG'', ''ABSTRACCAO |  PESSOA '')] None None []"]
  by (simp add: XMLtoJSON_def get_label_def SELECTIVE_CATEGS_def strip_def lstrip_def
      rstrip_def isspace_def)

section \<open>Entity extraction\<close>


text \<open>
  Claim C7. For an EM element with an ID attribute and inline text, \<^verbatim>\<open>_convert_entity\<close>
  returns an entity whose text is the inline text without its leading whitespace (the
  inline text is some whitespace followed by the entity text, which does not start with
  whitespace, so whatever trails is kept), whose start offset is 0, whose end offset is
  the length of that text, and whose label is the result of \<^verbatim>\<open>_get_label\<close>.
\<close>

theorem convert_entity_fields:
  assumes "elem_text e = Some t" and "map_of (elem_attrib e) ''ID'' = Some i"
  shows "\<exists>ent ws. convert_entity self e = Inr ent \<and> entity_id ent = i \<and>
           t = ws @ entity_text ent \<and> (\<forall>c\<in>set ws. isspace c) \<and>
           (entity_text ent = [] \<or> \<not> isspace (hd (entity_text ent))) \<and>
           start_offset ent = 0 \<and> end_offset ent = int (length (entity_text ent)) \<and>
           label ent = get_label self e"
proof -
  obtain ws where ws: "t = ws @ lstrip t" "\<forall>c\<in>set ws. isspace c"
    "lstrip t = [] \<or> \<not> isspace (hd (lstrip t))"
    using lstrip_decomp [of t] by blast
  let ?ent = "\<lparr>entity_id = i, entity_text = lstrip t, label = get_label self e,
                start_offset = 0, end_offset = int (length (lstrip t))\<rparr>"
  have "convert_entity self e = Inr ?ent"
    using assms by (simp add: convert_entity_def)
  with ws show ?thesis by (intro exI [of _ ?ent] exI [of _ ws]) simp
qed

theorem convert_entity_fields_witness:
  "elem_text (Element ''EM'' [(''ID'', ''205''), (''CATEG'', ''VALOR'')] (Some '' 67 '') None [])
     = Some '' 67 '' \<and>
   map_of (elem_attrib
     (Element ''EM'' [(''ID'', ''205''), (''CATEG'', ''VALOR'')] (Some '' 67 '') None []))
     ''ID'' = Some ''205'' \<and>
   convert_entity \<lparr>accepted_labels = ALL_CATEGS, alt_strategy = ''most_entities''\<rparr>
     (Element ''EM'' [(''ID'', ''205''), (''CATEG'', ''VALOR'')] (Some '' 67 '') None [])
     = Inr \<lparr>entity_id = ''205'', entity_text = ''67 '', label = Some ''VALOR'',
            start_offset = 0, end_offset = 3\<rparr>"
  using convert_entity_fields [of
      "Element ''EM'' [(''ID'', ''205''), (''CATEG'', ''VALOR'')] (Some '' 67 '') None []"
      "'' 67 ''" "''205''"
      "\<lparr>accepted_labels = ALL_CATEGS, alt_strategy = ''most_entities''\<rparr>"]
  by (simp add: convert_entity_def get_label_def ALL_CATEGS_def SELECTIVE_CATEGS_def
      strip_def lstrip_def rstrip_def isspace_def)

section \<open>The agglutination guard\<close>

text \<open>
  Claim C9. When \<open>txt\<close> is not empty, its last character is neither whitespace nor
  punctuation and the first character of \<open>piece\<close> is neither, \<^verbatim>\<open>append_text_safe\<close>
  returns \<open>txt\<close>, one space, then \<open>piece\<close>. When \<open>txt\<close> is empty, or one of the two
  boundary characters is whitespace or punctuation, it returns \<open>txt\<close> directly
  followed by \<open>piece\<close>.
\<close>

theorem append_text_safe_guard:
  "(txt \<noteq> [] \<and> \<not> wp (last txt) \<and> piece \<noteq> [] \<and> \<not> wp (hd piece) \<longrightarrow>
      append_text_safe wp txt piece = Inr (txt @ '' '' @ piece)) \<and>
   (txt = [] \<or> (txt \<noteq> [] \<and> wp (last txt)) \<or> (piece \<noteq> [] \<and> wp (hd piece)) \<longrightarrow>
      append_text_safe wp txt piece = Inr (txt @ piece))"
  by (cases piece) (auto simp: append_text_safe_def)

theorem append_text_safe_guard_witness:
  "''aos'' \<noteq> [] \<and> \<not> is_whitespace_or_punctuation (last ''aos'') \<and> ''67'' \<noteq> [] \<and>
   \<not> is_whitespace_or_punctuation (hd ''67'') \<and>
   append_text_safe is_whitespace_or_punctuation ''aos'' ''67'' = Inr ''aos 67'' \<and>
   is_whitespace_or_punctuation (hd '', o'') \<and>
   append_text_safe is_whitespace_or_punctuation ''aos'' '', o'' = Inr ''aos, o''"
  using append_text_safe_guard [of "''aos''" is_whitespace_or_punctuation "''67''"]
    append_text_safe_guard [of "''aos''" is_whitespace_or_punctuation "'', o''"]
  by (simp add: is_whitespace_or_punctuation_def isspace_def is_punctuation_def)

section \<open>Tags other than EM and ALT\<close>

text \<open>
  Claim C10. For an element whose tag is neither EM nor ALT, \<^verbatim>\<open>_convert_tag\<close> returns
  no entity and, as text, the tail text of the element (the empty string when there is no
  tail): the result does not depend on the inline text or on the children.
\<close>

theorem convert_tag_other:
  assumes "elem_tag t \<noteq> ''EM''" and "elem_tag t \<noteq> ''ALT''"
  shows "convert_tag wp self t =
           Inr (case elem_tail t of None \<Rightarrow> [] | Some tail \<Rightarrow> tail, [])"
  using assms by (simp add: convert_tag_def avoid_word_agglutination_def split: option.splits)

theorem convert_tag_other_witness:
  "elem_tag (Element ''P'' [] (Some ''inner'') (Some '' after'')
      [Element ''EM'' [(''ID'', ''1''), (''CATEG'', ''PESSOA'')] (Some ''Ana'') None []]) \<noteq> ''EM'' \<and>
   elem_tag (Element ''P'' [] (Some ''inner'') (Some '' after'')
      [Element ''EM'' [(''ID'', ''1''), (''CATEG'', ''PESSOA'')] (Some ''Ana'') None []]) \<noteq> ''ALT'' \<and>
   convert_tag is_whitespace_or_punctuation
     \<lparr>accepted_labels = ALL_CATEGS, alt_strategy = ''most_entities''\<rparr>
     (Element ''P'' [] (Some ''inner'') (Some '' after'')
      [Element ''EM'' [(''ID'', ''1''), (''CATEG'', ''PESSOA'')] (Some ''Ana'') None []])
     = Inr ('' after'', [])"
  using convert_tag_other [of
      "Element ''P'' [] (Some ''inner'') (Some '' after'')
        [Element ''EM'' [(''ID'', ''1''), (''CATEG'', ''PESSOA'')] (Some ''Ana'') None []]"
      is_whitespace_or_punctuation
      "\<lparr>accepted_labels = ALL_CATEGS, alt_strategy = ''most_entities''\<rparr>"]
  by simp

section \<open>Fewer than two alternatives\<close>

lemma length_py_split: "length (py_split sep s) = Suc (length (filter (\<lambda>c. c = sep) s))"
  by (induction s) (auto split: list.splits simp: py_split_not_Nil)

lemma py_split_short_iff: "length (py_split sep s) < 2 \<longleftrightarrow> sep \<notin> set s"
proof -
  have "length (filter (\<lambda>c. c = sep) s) = 0 \<longleftrightarrow> sep \<notin> set s"
    by (auto simp: filter_empty_conv)
  then show ?thesis unfolding length_py_split by auto
qed

lemma split_loop_no_violation:
  "split_loop divs n es gi gs ge groups \<noteq> Inl HypothesisViolation"
  by (induction es arbitrary: gi gs ge groups) (auto simp: Let_def)

lemma split_alternatives_violation_iff:
  "split_alternatives probe ents = Inl HypothesisViolation \<longleftrightarrow> CHR ''|'' \<notin> set probe"
proof
  assume "split_alternatives probe ents = Inl HypothesisViolation"
  then show "CHR ''|'' \<notin> set probe"
    using split_loop_no_violation
    by (auto simp: split_alternatives_def Let_def py_split_short_iff
        split: if_splits list.splits sum.splits)
next
  assume "CHR ''|'' \<notin> set probe"
  then show "split_alternatives probe ents = Inl HypothesisViolation"
    by (simp add: split_alternatives_def Let_def py_split_short_iff)
qed

lemma convert_children_abort:
  "t \<in> set ts \<Longrightarrow> convert_tag wp self t = Inl err \<Longrightarrow>
     isl (convert_children wp self ts cur ents)"
proof (induction ts arbitrary: cur ents)
  case Nil
  then show ?case by simp
next
  case (Cons a ts)
  show ?case
  proof (cases rule: case_split [of "a = t"])
    case True
    with Cons.prems show ?thesis by simp
  next
    case False
    with Cons.prems have "t \<in> set ts" by simp
    from Cons.IH [OF this Cons.prems(2)] show ?thesis
      by (auto simp: Let_def split: sum.splits prod.splits)
  qed
qed

text \<open>
  Claim C8. \<^verbatim>\<open>_split_alternatives\<close> raises \<^verbatim>\<open>HypothesisViolation\<close> exactly when the
  probe string holds no pipe character, that is when splitting it gives fewer than two
  segments; with at least one pipe the split step never raises that error. The error is
  not repaired on the way up: \<^verbatim>\<open>_handle_alt\<close> raises it for an ALT element whose probe
  string has no pipe, and \<^verbatim>\<open>convert_document\<close> returns no document for a DOC element
  with such an ALT child.
\<close>

theorem split_alternatives_fewer_than_two:
  "(split_alternatives probe ents = Inl HypothesisViolation \<longleftrightarrow> CHR ''|'' \<notin> set probe) \<and>
   (iterate_alt_tag wp self alt = Inr (probe, ents) \<and> CHR ''|'' \<notin> set probe \<longrightarrow>
      handle_alt wp self alt = Inl HypothesisViolation) \<and>
   (iterate_alt_tag wp self alt = Inr (probe, ents) \<and> CHR ''|'' \<notin> set probe \<and>
    elem_tag alt = ''ALT'' \<and> alt \<in> set (elem_children doc) \<longrightarrow>
      isl (convert_document wp self doc))"
proof -
  have h: "handle_alt wp self alt = Inl HypothesisViolation"
    if "iterate_alt_tag wp self alt = Inr (probe, ents)" and "CHR ''|'' \<notin> set probe"
  proof -
    from that(2) have "split_alternatives probe ents = Inl HypothesisViolation"
      using split_alternatives_violation_iff [of probe ents] by blast
    with that(1) show ?thesis by (simp add: handle_alt_def)
  qed
  have d: "isl (convert_document wp self doc)"
    if "iterate_alt_tag wp self alt = Inr (probe, ents)" and "CHR ''|'' \<notin> set probe"
      and "elem_tag alt = ''ALT''" and "alt \<in> set (elem_children doc)"
  proof -
    have "convert_tag wp self alt = Inl HypothesisViolation"
      using h [OF that(1,2)] that(3) by (simp add: convert_tag_def)
    from convert_children_abort [OF that(4) this]
    have "isl (convert_children wp self (elem_children doc)
                 (case elem_text doc of None \<Rightarrow> [] | Some t \<Rightarrow> t) [])" .
    then show ?thesis by (auto simp: convert_document_def split: sum.splits)
  qed
  from h d split_alternatives_violation_iff show ?thesis by blast
qed

theorem split_alternatives_fewer_than_two_witness:
  "split_alternatives ''Nomes de Origem'' [] = Inl HypothesisViolation \<and>
   CHR ''|'' \<notin> set ''Nomes de Origem'' \<and>
   iterate_alt_tag is_whitespace_or_punctuation
     \<lparr>accepted_labels = ALL_CATEGS, alt_strategy = ''most_entities''\<rparr>
     (Element ''ALT'' [] (Some ''Nomes de Origem'') None []) = Inr (''Nomes de Origem'', []) \<and>
   handle_alt is_whitespace_or_punctuation
     \<lparr>accepted_labels = ALL_CATEGS, alt_strategy = ''most_entities''\<rparr>
     (Element ''ALT'' [] (Some ''Nomes de Origem'') None []) = Inl HypothesisViolation \<and>
   isl (convert_document is_whitespace_or_punctuation
     \<lparr>accepted_labels = ALL_CATEGS, alt_strategy = ''most_entities''\<rparr>
     (Element ''DOC'' [(''DOCID'', ''d'')] None None
        [Element ''ALT'' [] (Some ''Nomes de Origem'') None []])) \<and>
   CHR ''|'' \<in> set ''a|b'' \<and>
   split_alternatives ''a|b'' [] = Inr ([''a'', ''b''], [[], []])"
  using split_alternatives_fewer_than_two [of "''Nomes de Origem''" "[]"
      is_whitespace_or_punctuation
      "\<lparr>accepted_labels = ALL_CATEGS, alt_strategy = ''most_entities''\<rparr>"
      "Element ''ALT'' [] (Some ''Nomes de Origem'') None []"
      "Element ''DOC'' [(''DOCID'', ''d'')] None None
        [Element ''ALT'' [] (Some ''Nomes de Origem'') None []]"]
    split_alternatives_fewer_than_two [of "''a|b''" "[]"]
  by (simp add: iterate_alt_tag_def split_alternatives_def)

section \<open>Selecting one alternative\<close>

lemma py_max_props:
  assumes "py_max xs = Inr m"
  shows "m \<in> set xs \<and> (\<forall>x\<in>set xs. x \<le> m)"
proof (cases xs)
  case Nil
  with assms show ?thesis by simp
next
  case (Cons y ys)
  with assms have "m = fold max ys y" by simp
  then have m: "m = Max (set (y # ys))" by (simp only: Max.set_eq_fold)
  have "Max (set (y # ys)) \<in> set (y # ys)" by (rule Max_in) auto
  moreover have "\<forall>x\<in>set (y # ys). x \<le> Max (set (y # ys))" by (auto intro: Max_ge)
  ultimately show ?thesis using m Cons by simp
qed

lemma py_max_nonempty: "xs \<noteq> [] \<Longrightarrow> \<exists>m. py_max xs = Inr m"
  by (cases xs) auto

lemma py_index_props:
  "py_index xs v = Inr i \<Longrightarrow> i < length xs \<and> xs ! i = v \<and> (\<forall>j<i. xs ! j \<noteq> v)"
proof (induction xs arbitrary: i)
  case Nil
  then show ?case by simp
next
  case (Cons x xs)
  show ?case
  proof (cases rule: case_split [of "x = v"])
    case True
    with Cons.prems show ?thesis by simp
  next
    case False
    with Cons.prems obtain i' where i': "py_index xs v = Inr i'" "i = Suc i'"
      by (auto split: sum.splits)
    from Cons.IH [OF i'(1)] have "i' < length xs" "xs ! i' = v" "\<forall>j<i'. xs ! j \<noteq> v"
      by blast+
    with False i'(2) show ?thesis by (auto simp: less_Suc_eq_0_disj)
  qed
qed

lemma py_index_member: "v \<in> set xs \<Longrightarrow> \<exists>i. py_index xs v = Inr i"
  by (induction xs) (auto split: sum.splits)

lemma choose_group_Inr:
  assumes "choose_group scores alt_texts groups = Inr (t, es)"
  shows "\<exists>k. k < length scores \<and> k < length groups \<and> k < length alt_texts \<and>
           t = alt_texts ! k \<and> es = groups ! k \<and>
           (\<forall>j<length scores. scores ! j \<le> scores ! k) \<and>
           (\<forall>j<k. scores ! j < scores ! k)"
proof -
  from assms obtain m k where m: "py_max scores = Inr m" and k: "py_index scores m = Inr k"
    and g: "py_get groups k = Inr es" and a: "py_get alt_texts k = Inr t"
    by (auto simp: choose_group_def split: sum.splits)
  from py_max_props [OF m] have mx: "\<forall>x\<in>set scores. x \<le> m" by blast
  from py_index_props [OF k] have kk: "k < length scores" "scores ! k = m"
    "\<forall>j<k. scores ! j \<noteq> m" by blast+
  have le: "\<forall>j<length scores. scores ! j \<le> scores ! k"
    using mx kk(2) by simp
  have lt: "\<forall>j<k. scores ! j < scores ! k"
  proof (intro allI impI)
    fix j assume "j < k"
    with kk have "scores ! j \<noteq> m" "j < length scores" by auto
    with le kk(2) show "scores ! j < scores ! k" by (simp add: le_neq_implies_less)
  qed
  from g a have "k < length groups" "es = groups ! k" "k < length alt_texts" "t = alt_texts ! k"
    by (auto simp: py_get_def split: if_splits)
  with kk(1) le lt show ?thesis by blast
qed

lemma choose_group_total:
  assumes "scores \<noteq> []" and "length groups = length scores"
    and "length alt_texts = length scores"
  shows "\<exists>r. choose_group scores alt_texts groups = Inr r"
proof -
  from py_max_nonempty [OF assms(1)] obtain m where m: "py_max scores = Inr m" by blast
  from py_max_props [OF m] have "m \<in> set scores" by blast
  from py_index_member [OF this] obtain k where k: "py_index scores m = Inr k" by blast
  from py_index_props [OF k] have "k < length scores" by blast
  with m k assms show ?thesis by (simp add: choose_group_def py_get_def)
qed

lemma sum_length_append_at:
  "i < length gs \<Longrightarrow>
     sum_list (map length (gs[i := gs ! i @ [x]])) = Suc (sum_list (map length gs))"
proof (induction gs arbitrary: i)
  case Nil
  then show ?case by simp
next
  case (Cons g gs)
  then show ?case by (cases i) auto
qed

lemma split_loop_groups:
  assumes "split_loop divs n es gi gs ge groups = Inr groups'"
    and "length groups = Suc (length divs)"
    and "gs = group_start divs gi" and "ge = group_end divs n gi"
  shows "length groups' = length groups \<and>
         sum_list (map length groups') = sum_list (map length groups) + length es \<and>
         (\<forall>k<length groups. \<exists>sub. set sub \<subseteq> set es \<and>
            groups' ! k = groups ! k @ map (\<lambda>e. shift_offset e (- group_start divs k)) sub)"
  using assms
proof (induction es arbitrary: gi gs ge groups)
  case Nil
  then show ?case by simp
next
  case (Cons e es)
  let ?adv = "start_offset e > ge"
  let ?gi = "if ?adv then Suc gi else gi"
  let ?gs = "group_start divs ?gi"
  let ?ge = "group_end divs n ?gi"
  let ?groups = "groups[?gi := groups ! ?gi @ [shift_offset e (- ?gs)]]"
  have in_range: "?gi < length groups"
    using Cons.prems(1) by (auto simp: Let_def split: if_splits)
  have gs_eq: "(if ?adv then ge + 1 else gs) = ?gs"
    using Cons.prems(2-4) in_range by (auto simp: group_start_def group_end_def)
  have ge_eq: "(if ?adv then (if Suc gi < length divs then divs ! Suc gi
                  else if Suc gi = length divs then n else ge) else ge) = ?ge"
    using Cons.prems(2-4) in_range by (auto simp: group_end_def)
  have step: "split_loop divs n es ?gi ?gs ?ge ?groups = Inr groups'"
  proof (cases ?adv)
    case True
    with Cons.prems(1) in_range gs_eq ge_eq show ?thesis
      by (simp add: Let_def split: if_splits)
  next
    case False
    with Cons.prems(1) in_range Cons.prems(3,4) show ?thesis
      by (simp add: Let_def split: if_splits)
  qed
  have len: "length ?groups = Suc (length divs)" using Cons.prems(2) by simp
  from Cons.IH [OF step len refl refl]
  have ih: "length groups' = length ?groups"
    "sum_list (map length groups') = sum_list (map length ?groups) + length es"
    "\<forall>k<length ?groups. \<exists>sub. set sub \<subseteq> set es \<and>
        groups' ! k = ?groups ! k @ map (\<lambda>e. shift_offset e (- group_start divs k)) sub"
    by blast+
  have one: "length groups' = length groups" using ih(1) by simp
  have two: "sum_list (map length groups') = sum_list (map length groups) + length (e # es)"
    using ih(2) sum_length_append_at [OF in_range] by simp
  have three: "\<forall>k<length groups. \<exists>sub. set sub \<subseteq> set (e # es) \<and>
      groups' ! k = groups ! k @ map (\<lambda>e. shift_offset e (- group_start divs k)) sub"
  proof (intro allI impI)
    fix k assume k: "k < length groups"
    with ih(3) obtain sub where sub: "set sub \<subseteq> set es"
      "groups' ! k = ?groups ! k @ map (\<lambda>e. shift_offset e (- group_start divs k)) sub"
      by auto
    show "\<exists>sub. set sub \<subseteq> set (e # es) \<and>
      groups' ! k = groups ! k @ map (\<lambda>e. shift_offset e (- group_start divs k)) sub"
    proof (cases rule: case_split [of "k = ?gi"])
      case True
      with sub(2) in_range
      have "groups' ! k = groups ! k @ map (\<lambda>e. shift_offset e (- group_start divs k)) (e # sub)"
        by simp
      moreover have "set (e # sub) \<subseteq> set (e # es)" using sub(1) by auto
      ultimately show ?thesis by blast
    next
      case False
      with sub(2) have "groups' ! k = groups ! k @ map (\<lambda>e. shift_offset e (- group_start divs k)) sub"
        by simp
      moreover have "set sub \<subseteq> set (e # es)" using sub(1) by auto
      ultimately show ?thesis by blast
    qed
  qed
  from one two three show ?case by blast
qed

lemma pipe_offsets_segments:
  "j < length (pipe_offsets i s) \<Longrightarrow>
     pipe_offsets i s ! j = i + segment_start (py_split CHR ''|'' s) (Suc j) - 1"
proof (induction s arbitrary: i j)
  case Nil
  then show ?case by simp
next
  case (Cons c cs)
  obtain p ps where pp: "py_split CHR ''|'' cs = p # ps"
    using py_split_not_Nil [of "CHR ''|''" cs] by (cases "py_split CHR ''|'' cs") auto
  show ?case
  proof (cases rule: case_split [of "c = CHR ''|''"])
    case True
    show ?thesis
    proof (cases j)
      case 0
      with True show ?thesis by (simp add: segment_start_def)
    next
      case (Suc j')
      with True Cons.prems have "j' < length (pipe_offsets (i + 1) cs)" by simp
      from Cons.IH [OF this] True Suc show ?thesis
        by (simp add: segment_start_def)
    qed
  next
    case False
    with Cons.prems have "j < length (pipe_offsets (i + 1) cs)" by simp
    from Cons.IH [OF this] False pp show ?thesis
      by (simp add: segment_start_def)
  qed
qed

lemma length_pipe_offsets:
  "length (pipe_offsets i s) = length (filter (\<lambda>c. c = CHR ''|'') s)"
  by (induction s arbitrary: i) auto

lemma group_start_segment_start:
  assumes "k \<le> length (pipe_offsets 0 s)"
  shows "group_start (pipe_offsets 0 s) k = segment_start (py_split CHR ''|'' s) k"
proof (cases k)
  case 0
  then show ?thesis by (simp add: group_start_def segment_start_def)
next
  case (Suc j)
  with assms have "j < length (pipe_offsets 0 s)" by simp
  from pipe_offsets_segments [OF this] Suc show ?thesis
    by (simp add: group_start_def)
qed

lemma iterate_children_labels:
  "iterate_children wp self ts cur ents = Inr (probe, ents') \<Longrightarrow>
     \<forall>e\<in>set ents. label e \<noteq> None \<Longrightarrow> \<forall>e\<in>set ents'. label e \<noteq> None"
proof (induction ts arbitrary: cur ents)
  case Nil
  then show ?case by simp
next
  case (Cons t ts)
  show ?case
  proof (cases rule: case_split [of "elem_tag t = ''EM''"])
    case False
    with Cons.prems(1) have "iterate_children wp self ts cur ents = Inr (probe, ents')"
      by simp
    from Cons.IH [OF this Cons.prems(2)] show ?thesis .
  next
    case True
    with Cons.prems(1) obtain e cur' where
      e: "convert_entity self t = Inr e" and
      r: "iterate_children wp self ts cur'
            (if label e \<noteq> None then ents @ [shift_offset e (int (length cur))] else ents)
          = Inr (probe, ents')"
      by (auto simp: Let_def split: sum.splits option.splits if_splits)
    have "\<forall>x\<in>set (if label e \<noteq> None then ents @ [shift_offset e (int (length cur))] else ents).
            label x \<noteq> None"
      using Cons.prems(2) by (auto simp: shift_offset_def)
    from Cons.IH [OF r this] show ?thesis .
  qed
qed

lemma split_alternatives_Inr:
  assumes "split_alternatives probe ents = Inr (alt_texts, groups)"
  shows "alt_texts = py_split CHR ''|'' probe \<and> 2 \<le> length alt_texts \<and>
         length groups = length alt_texts \<and>
         sum_list (map length groups) = length ents \<and>
         (\<forall>k<length groups. \<exists>sub. set sub \<subseteq> set ents \<and>
            groups ! k = map (\<lambda>e. shift_offset e (- segment_start alt_texts k)) sub)"
proof -
  let ?texts = "py_split CHR ''|'' probe"
  let ?divs = "pipe_offsets 0 probe"
  let ?init = "replicate (length ?texts) ([] :: entity list)"
  from assms have texts: "alt_texts = ?texts" and two: "2 \<le> length ?texts"
    by (auto simp: split_alternatives_def Let_def split: if_splits list.splits sum.splits)
  from assms obtain d0 ds where divs: "?divs = d0 # ds"
    by (auto simp: split_alternatives_def Let_def split: if_splits list.splits sum.splits)
  from assms divs have loop:
    "split_loop ?divs (int (length probe)) ents 0 0 d0 ?init = Inr groups"
    and len: "length groups = length ?texts"
    by (auto simp: split_alternatives_def Let_def split: if_splits list.splits sum.splits)
  have l0: "length ?init = Suc (length ?divs)"
    by (simp add: length_py_split length_pipe_offsets)
  have s0: "(0::int) = group_start ?divs 0" by (simp add: group_start_def)
  have e0: "d0 = group_end ?divs (int (length probe)) 0"
    using divs by (simp add: group_end_def)
  from split_loop_groups [OF loop l0 s0 e0]
  have sum: "sum_list (map length groups) = sum_list (map length ?init) + length ents"
    and sub: "\<forall>k<length ?init. \<exists>sub. set sub \<subseteq> set ents \<and>
        groups ! k = ?init ! k @ map (\<lambda>e. shift_offset e (- group_start ?divs k)) sub"
    by blast+
  have zero: "sum_list (map length ?init) = 0" by (induction "length ?texts") auto
  have rebase: "\<forall>k<length groups. \<exists>sub. set sub \<subseteq> set ents \<and>
      groups ! k = map (\<lambda>e. shift_offset e (- segment_start alt_texts k)) sub"
  proof (intro allI impI)
    fix k assume k: "k < length groups"
    with len have k': "k < length ?init" by simp
    with sub obtain sb where sb: "set sb \<subseteq> set ents"
      "groups ! k = ?init ! k @ map (\<lambda>e. shift_offset e (- group_start ?divs k)) sb"
      by blast
    from k' l0 have "k \<le> length ?divs" by simp
    from group_start_segment_start [OF this] texts
    have "group_start ?divs k = segment_start alt_texts k" by simp
    with sb k' show "\<exists>sub. set sub \<subseteq> set ents \<and>
      groups ! k = map (\<lambda>e. shift_offset e (- segment_start alt_texts k)) sub"
      by auto
  qed
  from texts two len sum zero rebase show ?thesis by simp
qed

lemma label_shift_offset: "label (shift_offset e d) = label e"
  by (simp add: shift_offset_def)

lemma handle_alt_choose_group:
  assumes "iterate_alt_tag wp self alt = Inr (probe, ents)"
    and "split_alternatives probe ents = Inr (alt_texts, groups)"
    and "alt_strategy self = ''most_entities'' \<or> alt_strategy self = ''entity_coverage''"
  shows "handle_alt wp self alt =
           choose_group (if alt_strategy self = ''most_entities'' then ents_per_group groups
                         else coverages groups) alt_texts groups"
proof -
  from split_alternatives_Inr [OF assms(2)]
  have "sum_list (map length groups) = length ents" by blast
  with assms show ?thesis by (auto simp: handle_alt_def ents_per_group_def)
qed

lemma iterate_alt_ab:
  "iterate_alt_tag is_whitespace_or_punctuation most_conv alt_ab =
     Inr (''A-B|A-B'', [ent ''1'' ''A-B'' ''COISA'' 0 3, ent ''2'' ''A'' ''PESSOA'' 4 5,
                        ent ''3'' ''B'' ''PESSOA'' 6 7])"
  by (simp add: eval_defs)

lemma iterate_alt_ab_coverage:
  "iterate_alt_tag is_whitespace_or_punctuation coverage_conv alt_ab =
     Inr (''A-B|A-B'', [ent ''1'' ''A-B'' ''COISA'' 0 3, ent ''2'' ''A'' ''PESSOA'' 4 5,
                        ent ''3'' ''B'' ''PESSOA'' 6 7])"
  by (simp add: eval_defs)

lemma split_alt_ab:
  "split_alternatives ''A-B|A-B'' [ent ''1'' ''A-B'' ''COISA'' 0 3, ent ''2'' ''A'' ''PESSOA'' 4 5,
                        ent ''3'' ''B'' ''PESSOA'' 6 7] =
     Inr ([''A-B'', ''A-B''],
          [[ent ''1'' ''A-B'' ''COISA'' 0 3],
           [ent ''2'' ''A'' ''PESSOA'' 0 1, ent ''3'' ''B'' ''PESSOA'' 2 3]])"
  by (simp add: eval_defs)

lemma handle_alt_ab:
  "handle_alt is_whitespace_or_punctuation most_conv alt_ab =
     Inr (''A-B'', [ent ''2'' ''A'' ''PESSOA'' 0 1, ent ''3'' ''B'' ''PESSOA'' 2 3])"
  by (simp add: eval_defs)

lemma handle_alt_ab_coverage:
  "handle_alt is_whitespace_or_punctuation coverage_conv alt_ab =
     Inr (''A-B'', [ent ''1'' ''A-B'' ''COISA'' 0 3])"
  by (simp add: eval_defs)

text \<open>
  What the selection step does with the groups the split step hands it: the first group of
  maximal score is returned, with the text of the same index.
\<close>

lemma handle_alt_choice:
  assumes "iterate_alt_tag wp self alt = Inr (probe, ents)"
    and "split_alternatives probe ents = Inr (alt_texts, groups)"
    and "alt_strategy self = ''most_entities'' \<or> alt_strategy self = ''entity_coverage''"
  shows "\<exists>k<length groups.
           handle_alt wp self alt = Inr (alt_texts ! k, groups ! k) \<and>
           length alt_texts = length groups \<and>
           (\<forall>g\<in>set groups. \<forall>e\<in>set g. label e \<noteq> None) \<and>
           (\<forall>j<length groups.
              (if alt_strategy self = ''most_entities'' then length (groups ! j)
               else coverage (groups ! j))
              \<le> (if alt_strategy self = ''most_entities'' then length (groups ! k)
                  else coverage (groups ! k))) \<and>
           (\<forall>j<k.
              (if alt_strategy self = ''most_entities'' then length (groups ! j)
               else coverage (groups ! j))
              < (if alt_strategy self = ''most_entities'' then length (groups ! k)
                 else coverage (groups ! k))) \<and>
           (\<exists>sub. set sub \<subseteq> set ents \<and>
              groups ! k = map (\<lambda>e. shift_offset e (- segment_start alt_texts k)) sub)"
proof -
  from split_alternatives_Inr [OF assms(2)]
  have two: "2 \<le> length alt_texts" and len: "length groups = length alt_texts"
    and sum: "sum_list (map length groups) = length ents"
    and rebase: "\<forall>k<length groups. \<exists>sub. set sub \<subseteq> set ents \<and>
        groups ! k = map (\<lambda>e. shift_offset e (- segment_start alt_texts k)) sub"
    by blast+
  have ents_lab: "\<forall>e\<in>set ents. label e \<noteq> None"
    using iterate_children_labels [of wp self "elem_children alt" _ "[]" probe ents] assms(1)
    by (simp add: iterate_alt_tag_def)
  have labels: "\<forall>g\<in>set groups. \<forall>e\<in>set g. label e \<noteq> None"
  proof (intro ballI)
    fix g e assume g: "g \<in> set groups" and e: "e \<in> set g"
    from g obtain k where k: "k < length groups" "g = groups ! k"
      by (auto simp: in_set_conv_nth)
    with rebase obtain sub where sub: "set sub \<subseteq> set ents"
      "g = map (\<lambda>e. shift_offset e (- segment_start alt_texts k)) sub" by blast
    with e obtain e0 where "e0 \<in> set ents" "e = shift_offset e0 (- segment_start alt_texts k)"
      by auto
    with ents_lab show "label e \<noteq> None" by (simp add: label_shift_offset)
  qed
  let ?scores = "if alt_strategy self = ''most_entities'' then ents_per_group groups
                 else coverages groups"
  have h: "handle_alt wp self alt = choose_group ?scores alt_texts groups"
    using assms by (rule handle_alt_choose_group)
  have ls: "length ?scores = length groups"
    by (simp add: ents_per_group_def coverages_def)
  have ne: "?scores \<noteq> []" using ls len two by auto
  from choose_group_total [OF ne] ls len obtain t es where
    r: "choose_group ?scores alt_texts groups = Inr (t, es)" by fastforce
  from choose_group_Inr [OF r] obtain k where k: "k < length ?scores" "k < length groups"
    "t = alt_texts ! k" "es = groups ! k"
    "\<forall>j<length ?scores. ?scores ! j \<le> ?scores ! k" "\<forall>j<k. ?scores ! j < ?scores ! k"
    by blast
  have sc: "?scores ! j = (if alt_strategy self = ''most_entities'' then length (groups ! j)
               else coverage (groups ! j))" if "j < length groups" for j
    using that by (simp add: ents_per_group_def coverages_def)
  have le: "\<forall>j<length groups.
              (if alt_strategy self = ''most_entities'' then length (groups ! j)
               else coverage (groups ! j))
              \<le> (if alt_strategy self = ''most_entities'' then length (groups ! k)
                  else coverage (groups ! k))"
  proof (intro allI impI)
    fix j assume j: "j < length groups"
    with k(5) ls have "?scores ! j \<le> ?scores ! k" by simp
    then show "(if alt_strategy self = ''most_entities'' then length (groups ! j)
               else coverage (groups ! j))
              \<le> (if alt_strategy self = ''most_entities'' then length (groups ! k)
                  else coverage (groups ! k))"
      by (simp only: sc [OF j] sc [OF k(2)])
  qed
  have lt: "\<forall>j<k.
              (if alt_strategy self = ''most_entities'' then length (groups ! j)
               else coverage (groups ! j))
              < (if alt_strategy self = ''most_entities'' then length (groups ! k)
                 else coverage (groups ! k))"
  proof (intro allI impI)
    fix j assume j: "j < k"
    with k(2) have j': "j < length groups" by simp
    from k(6) j have "?scores ! j < ?scores ! k" by simp
    then show "(if alt_strategy self = ''most_entities'' then length (groups ! j)
               else coverage (groups ! j))
              < (if alt_strategy self = ''most_entities'' then length (groups ! k)
                 else coverage (groups ! k))"
      by (simp only: sc [OF j'] sc [OF k(2)])
  qed
  from rebase k(2) have rb: "\<exists>sub. set sub \<subseteq> set ents \<and>
              groups ! k = map (\<lambda>e. shift_offset e (- segment_start alt_texts k)) sub"
    by blast
  have "handle_alt wp self alt = Inr (alt_texts ! k, groups ! k)"
    using h r k(3,4) by simp
  with k(2) len labels le lt rb show ?thesis by (intro exI [of _ k]) simp
qed




lemma split_alt_simple:
  "split_alternatives ''ab|ab'' [ent ''2011'' ''ab'' ''ABSTRACCAO'' 3 5] =
     Inr ([''ab'', ''ab''], [[], [ent ''2011'' ''ab'' ''ABSTRACCAO'' 0 2]])"
  by (simp add: eval_defs)












section \<open>Offsets inside an ALT element\<close>

text \<open>
  Claim C3 at the input \<^verbatim>\<open><ALT>foo<EM ID="1" CATEG="PESSOA">bar</EM>|baz</ALT>\<close>.
  \<^verbatim>\<open>_iterate_alt_tag\<close> shifts the entity by the length of the text before the guard
  inserts its space, so the entity keeps the offsets 3 and 6 while its text stands at 4 to
  7 in the probe string: the slice is not the text of the entity.
\<close>

theorem iterate_alt_tag_offsets_misaligned:
  "iterate_alt_tag is_whitespace_or_punctuation most_conv alt_glued =
     Inr (''foo bar|baz'', [ent ''1'' ''bar'' ''PESSOA'' 3 6]) \<and>
   entity_text (ent ''1'' ''bar'' ''PESSOA'' 3 6) = ''bar'' \<and>
   py_slice ''foo bar|baz'' 3 6 = '' ba'' \<and>
   py_slice ''foo bar|baz'' 4 7 = ''bar''"
  by (simp add: eval_defs)

text \<open>
  Claim C2 at the input \<^verbatim>\<open><ALT>a|b|<EM ID="1" CATEG="PESSOA">c</EM></ALT>\<close>. The
  entity starts at offset 4, where the third segment starts, but the loop of
  \<^verbatim>\<open>_split_alternatives\<close> moves on by one group for each entity: the entity lands in
  the group of the second segment, with offsets relative to that segment.
\<close>

theorem split_alternatives_skipped_segment:
  "iterate_alt_tag is_whitespace_or_punctuation most_conv alt_skip =
     Inr (''a|b|c'', [ent ''1'' ''c'' ''PESSOA'' 4 5]) \<and>
   split_alternatives ''a|b|c'' [ent ''1'' ''c'' ''PESSOA'' 4 5] =
     Inr ([''a'', ''b'', ''c''], [[], [ent ''1'' ''c'' ''PESSOA'' 2 3], []]) \<and>
   segment_start [''a'', ''b'', ''c''] 1 = 2 \<and>
   segment_start [''a'', ''b'', ''c''] 2 = 4 \<and>
   handle_alt is_whitespace_or_punctuation most_conv alt_skip =
     Inr (''b'', [ent ''1'' ''c'' ''PESSOA'' 2 3])"
  by (simp add: eval_defs)

text \<open>
  Claim C4 at the same input. The only entity lies in the third segment \<^verbatim>\<open>c\<close>, which
  so holds the greatest number of entities and the greatest coverage; both strategies
  return the second segment \<^verbatim>\<open>b\<close>, which holds none, with the entity at offsets 2
  and 3, outside the one character of the returned text.
\<close>

theorem handle_alt_skipped_segment:
  "iterate_alt_tag is_whitespace_or_punctuation coverage_conv alt_skip =
     Inr (''a|b|c'', [ent ''1'' ''c'' ''PESSOA'' 4 5]) \<and>
   py_split CHR ''|'' ''a|b|c'' = [''a'', ''b'', ''c''] \<and>
   py_slice ''a|b|c'' 4 5 = ''c'' \<and>
   handle_alt is_whitespace_or_punctuation most_conv alt_skip =
     Inr (''b'', [ent ''1'' ''c'' ''PESSOA'' 2 3]) \<and>
   handle_alt is_whitespace_or_punctuation coverage_conv alt_skip =
     Inr (''b'', [ent ''1'' ''c'' ''PESSOA'' 2 3]) \<and>
   py_slice ''b'' 2 3 = []"
  by (simp add: eval_defs)

section \<open>The offset-slice invariant of a document\<close>

lemma py_slice_in_range:
  "0 \<le> a \<Longrightarrow> a \<le> b \<Longrightarrow> b \<le> int (length s) \<Longrightarrow>
     py_slice s a b = take (nat (b - a)) (drop (nat a) s)"
  by (simp add: py_slice_def slice_bound_def min_def nat_diff_distrib)

lemma py_slice_append_left:
  assumes "0 \<le> a" and "a \<le> b" and "b \<le> int (length s)"
  shows "py_slice (s @ q) a b = py_slice s a b"
proof -
  have "py_slice (s @ q) a b = take (nat (b - a)) (drop (nat a) (s @ q))"
    using assms by (intro py_slice_in_range) auto
  also have "\<dots> = take (nat (b - a)) (drop (nat a) s)"
    using assms by (simp add: nat_diff_distrib nat_le_iff)
  also have "\<dots> = py_slice s a b"
    using assms by (simp add: py_slice_in_range)
  finally show ?thesis .
qed

lemma py_slice_shift:
  assumes "0 \<le> a" and "a \<le> b" and "b \<le> int (length s)"
  shows "py_slice (p @ s) (a + int (length p)) (b + int (length p)) = py_slice s a b"
proof -
  have "py_slice (p @ s) (a + int (length p)) (b + int (length p))
          = take (nat (b + int (length p) - (a + int (length p))))
              (drop (nat (a + int (length p))) (p @ s))"
    using assms by (intro py_slice_in_range) auto
  also have "\<dots> = take (nat (b - a)) (drop (nat a) s)"
    using assms by (simp add: nat_add_distrib)
  also have "\<dots> = py_slice s a b"
    using assms by (simp add: py_slice_in_range)
  finally show ?thesis .
qed

lemma aligned_Nil: "aligned s []"
  by (simp add: aligned_def)

lemma aligned_append_entities: "aligned s (es @ es') \<longleftrightarrow> aligned s es \<and> aligned s es'"
  by (simp add: aligned_def)

lemma aligned_append_text: "aligned s es \<Longrightarrow> aligned (s @ q) es"
  by (auto simp: aligned_def list_all_iff py_slice_append_left)

lemma aligned_shift:
  "aligned s es \<Longrightarrow> aligned (p @ s) (map (\<lambda>e. shift_offset e (int (length p))) es)"
  by (auto simp: aligned_def list_all_iff shift_offset_def py_slice_shift)

lemma avoid_word_agglutination_Inr:
  "avoid_word_agglutination wp s ins = Inr s' \<Longrightarrow> \<exists>sp. s' = s @ sp"
  by (auto simp: avoid_word_agglutination_def split: if_splits list.splits)

lemma avoid_then_append:
  assumes "wp (CHR '' '')" and "avoid_word_agglutination wp s p = Inr s'" and "p \<noteq> []"
  shows "append_text_safe wp s' p = Inr (s' @ p)"
  using assms
  by (cases p) (auto simp: avoid_word_agglutination_def append_text_safe_def split: if_splits)

lemma convert_entity_aligned:
  assumes "convert_entity self c = Inr e"
  shows "aligned (entity_text e @ q) [e]"
proof -
  from assms have "start_offset e = 0" "end_offset e = int (length (entity_text e))"
    by (auto simp: convert_entity_def split: option.splits)
  then have "aligned (entity_text e) [e]"
    by (simp add: aligned_def py_slice_in_range)
  then show ?thesis by (rule aligned_append_text)
qed

lemma convert_tag_aligned:
  assumes "convert_tag wp self c = Inr (s, es)"
    and "elem_tag c = ''ALT'' \<longrightarrow> (\<forall>t ents. handle_alt wp self c = Inr (t, ents) \<longrightarrow> aligned t ents)"
  shows "aligned s es"
proof -
  let ?inner = "if elem_tag c = ''EM'' then
              (case convert_entity self c of
                 Inl err \<Rightarrow> Inl err
               | Inr e \<Rightarrow> Inr (entity_text e, if label e \<noteq> None then [e] else []))
            else if elem_tag c = ''ALT'' then handle_alt wp self c
            else Inr ([], [])"
  have ct: "convert_tag wp self c =
      (case ?inner of
         Inl err \<Rightarrow> Inl err
       | Inr (s0, ents) \<Rightarrow>
           (case elem_tail c of
              None \<Rightarrow> Inr (s0, ents)
            | Some tail \<Rightarrow>
                (case avoid_word_agglutination wp s0 tail of
                   Inl err \<Rightarrow> Inl err
                 | Inr s1 \<Rightarrow> Inr (s1 @ tail, ents))))"
    by (simp only: convert_tag_def)
  from assms(1) obtain s0 where inner: "?inner = Inr (s0, es)" and
    rest: "(case elem_tail c of
              None \<Rightarrow> Inr (s0, es)
            | Some tail \<Rightarrow>
                (case avoid_word_agglutination wp s0 tail of
                   Inl err \<Rightarrow> Inl err
                 | Inr s1 \<Rightarrow> Inr (s1 @ tail, es))) = Inr (s, es)"
    unfolding ct by (cases ?inner) (auto split: option.splits sum.splits)
  have tail: "\<exists>q. s = s0 @ q"
    using rest by (auto split: option.splits sum.splits dest: avoid_word_agglutination_Inr)
  from tail obtain q where q: "s = s0 @ q" by blast
  have "aligned (s0 @ q) es"
  proof (cases rule: case_split [of "elem_tag c = ''EM''"])
    case True
    with inner obtain e where e: "convert_entity self c = Inr e" "s0 = entity_text e"
      "es = (if label e \<noteq> None then [e] else [])"
      by (auto split: sum.splits)
    from convert_entity_aligned [OF e(1), of q] e(2,3) show ?thesis
      by (auto simp: aligned_Nil)
  next
    case False
    show ?thesis
    proof (cases rule: case_split [of "elem_tag c = ''ALT''"])
      case True
      with False inner have "handle_alt wp self c = Inr (s0, es)" by simp
      with assms(2) True have "aligned s0 es" by blast
      then show ?thesis by (rule aligned_append_text)
    next
      case F2: False
      with False inner have "es = []" by simp
      then show ?thesis by (simp add: aligned_Nil)
    qed
  qed
  with q show ?thesis by simp
qed

lemma convert_children_aligned:
  assumes "wp (CHR '' '')"
  shows "convert_children wp self ts cur ents = Inr (s, es) \<Longrightarrow> aligned cur ents \<Longrightarrow>
     \<forall>c\<in>set ts. elem_tag c = ''ALT'' \<longrightarrow>
        (\<forall>t ents. handle_alt wp self c = Inr (t, ents) \<longrightarrow> aligned t ents) \<Longrightarrow>
     aligned s es"
proof (induction ts arbitrary: cur ents)
  case Nil
  then show ?case by simp
next
  case (Cons c ts)
  from Cons.prems(1) obtain tag_text tag_entities cur' where
    ct: "convert_tag wp self c = Inr (tag_text, tag_entities)" and
    av: "avoid_word_agglutination wp cur tag_text = Inr cur'"
    by (auto split: sum.splits)
  let ?shifted = "map (\<lambda>e. shift_offset e (int (length cur'))) tag_entities"
  have tag_al: "aligned tag_text tag_entities"
    using convert_tag_aligned [OF ct] Cons.prems(3) by simp
  from avoid_word_agglutination_Inr [OF av] obtain sp where sp: "cur' = cur @ sp" by blast
  have old: "aligned (cur' @ tag_text) ents"
    using aligned_append_text [OF Cons.prems(2), of "sp @ tag_text"] sp by simp
  have new: "aligned (cur' @ tag_text) ?shifted"
    using aligned_shift [OF tag_al] .
  have both: "aligned (cur' @ tag_text) (ents @ ?shifted)"
    using old new by (simp add: aligned_append_entities)
  have rest: "convert_children wp self ts (cur' @ tag_text) (ents @ ?shifted) = Inr (s, es)"
  proof (cases rule: case_split [of "tag_text = []"])
    case True
    with Cons.prems(1) ct av show ?thesis by (simp add: Let_def)
  next
    case False
    from avoid_then_append [OF assms av False] Cons.prems(1) ct av False
    show ?thesis by (simp add: Let_def)
  qed
  from Cons.prems(3) have "\<forall>c\<in>set ts. elem_tag c = ''ALT'' \<longrightarrow>
        (\<forall>t ents. handle_alt wp self c = Inr (t, ents) \<longrightarrow> aligned t ents)" by simp
  from Cons.IH [OF rest both this] show ?case .
qed

text \<open>
  Apart from ALT elements the invariant holds: when the guard's character test accepts the
  space character and the DOC element has no ALT child, the entities of the document
  returned are aligned with its text.
\<close>

lemma convert_document_aligned_without_alt:
  assumes "wp (CHR '' '')"
    and "convert_document wp self doc = Inr d"
    and "\<forall>c\<in>set (elem_children doc). elem_tag c \<noteq> ''ALT''"
  shows "aligned (doc_text d) (entities d)"
proof -
  from assms(2) obtain s es where
    cc: "convert_children wp self (elem_children doc)
           (case elem_text doc of None \<Rightarrow> [] | Some t \<Rightarrow> t) [] = Inr (s, es)"
    and d: "doc_text d = s" "entities d = es"
    by (auto simp: convert_document_def split: if_splits sum.splits option.splits)
  from assms(3) have "\<forall>c\<in>set (elem_children doc). elem_tag c = ''ALT'' \<longrightarrow>
      (\<forall>t ents. handle_alt wp self c = Inr (t, ents) \<longrightarrow> aligned t ents)" by simp
  from convert_children_aligned [OF assms(1) cc aligned_Nil this] d show ?thesis by simp
qed

text \<open>
  Claim C1 at three inputs. The DOC element that holds only
  \<^verbatim>\<open><ALT>foo<EM ID="1" CATEG="PESSOA">bar</EM>|baz</ALT>\<close> becomes the text
  \<^verbatim>\<open>foo bar\<close> with the entity at offsets 3 and 6, where the slice is not its text.
  The DOC element that holds only \<^verbatim>\<open><ALT>a|b|<EM ID="1" CATEG="PESSOA">c</EM></ALT>\<close>
  becomes the text \<^verbatim>\<open>b\<close> with the entity at offsets 2 and 3, past the end of the
  text. The DOC element that holds only an EM element of one space becomes the empty text
  with an entity whose two offsets are 0.
\<close>

theorem convert_document_offsets_broken:
  "convert_document is_whitespace_or_punctuation most_conv doc_glued =
     Inr \<lparr>doc_id = ''d'', doc_text = ''foo bar'',
          entities = [ent ''1'' ''bar'' ''PESSOA'' 3 6]\<rparr> \<and>
   py_slice ''foo bar'' 3 6 = '' ba'' \<and>
   convert_document is_whitespace_or_punctuation most_conv doc_skip =
     Inr \<lparr>doc_id = ''d'', doc_text = ''b'',
          entities = [ent ''1'' ''c'' ''PESSOA'' 2 3]\<rparr> \<and>
   py_slice ''b'' 2 3 = [] \<and> int (length ''b'') < 3 \<and>
   convert_document is_whitespace_or_punctuation most_conv doc_blank =
     Inr \<lparr>doc_id = ''d'', doc_text = [], entities = [ent ''1'' [] ''PESSOA'' 0 0]\<rparr> \<and>
   \<not> start_offset (ent ''1'' [] ''PESSOA'' 0 0) < end_offset (ent ''1'' [] ''PESSOA'' 0 0)"
  by (simp add: eval_defs)

end
